theory Spec2Isabelle
  imports Complex_Main "HOL-Library.Word" "HOL-Library.Signed_Division"
begin

unbundle bit_operations_syntax

section \<open>Machine types\<close>

text \<open>
  The native methods of \<^verbatim>\<open>MappedByteBuffer.cpp\<close> are modelled on an LP64 target:
  \<^verbatim>\<open>jint\<close> and \<^verbatim>\<open>int\<close> are 32 bits wide, \<^verbatim>\<open>jlong\<close>, \<^verbatim>\<open>size_t\<close> and pointers are
  64 bits wide, \<^verbatim>\<open>jboolean\<close> is one byte. The sum \<^verbatim>\<open>len + pageSize - 1\<close>, the
  accumulator \<^verbatim>\<open>j\<close> and the pointer are two's complement and wrap around, as the
  machine's additions do; division truncates towards zero. The overflow of the loop
  counter \<^verbatim>\<open>i\<close> is kept apart as an outcome of its own: it is undefined in C, and what
  a compiled loop does beyond it depends on the compiler. The arguments \<^verbatim>\<open>env\<close> and
  \<^verbatim>\<open>obj\<close> are used by none of the three methods and are left out.
\<close>

type_synonym jint = "32 word"
type_synonym jlong = "64 word"
type_synonym jboolean = "8 word"
type_synonym addr = "64 word"
type_synonym byte = "8 word"

definition INT_MAX :: int where
  "INT_MAX = 2147483647"

definition sizeof_int :: "64 word" where
  "sizeof_int = 4"

text \<open>
  The quotient of two \<^verbatim>\<open>jlong\<close> values as the C operator \<^verbatim>\<open>/\<close> computes it:
  on the signed values, rounding towards zero.
\<close>

definition jlong_div :: "jlong \<Rightarrow> jlong \<Rightarrow> jlong" where
  "jlong_div a b = word_of_int (sint a sdiv sint b)"

text \<open>
  Modelled from the spec: the macro \<^verbatim>\<open>jlong_to_ptr\<close> comes from \<^verbatim>\<open>jlong.h\<close>, which is
  not among the sources. The spec takes the \<^verbatim>\<open>address\<close> argument as the raw base
  address of the region, so the conversion keeps the 64-bit value.
\<close>

definition jlong_to_ptr :: "jlong \<Rightarrow> addr" where
  "jlong_to_ptr a = a"

section \<open>The state the methods run in\<close>

text \<open>
  \<open>heap\<close> is the byte-addressed memory of the process, \<open>storage\<close> the contents of
  the backing store of the mapping, \<open>err\<close> the characters written to \<^verbatim>\<open>stderr\<close> so
  far, and \<open>reads\<close> the log of the volatile reads done so far, each with its address
  and its width in bytes. Every address of the heap can be read: the region is taken
  to be mapped, as \<^verbatim>\<open>load0\<close> expects of its caller, and a fault of the process is not
  part of the model.
\<close>

record world =
  heap :: "addr \<Rightarrow> byte"
  storage :: "addr \<Rightarrow> byte"
  err :: string
  reads :: "(addr \<times> nat) list"

text \<open>Reading an \<^verbatim>\<open>int\<close> takes the four bytes from the address on, lowest byte first.\<close>

definition load_int :: "(addr \<Rightarrow> byte) \<Rightarrow> addr \<Rightarrow> jint" where
  "load_int h a =
     ucast (h a) OR push_bit 8 (ucast (h (a + 1)))
       OR push_bit 16 (ucast (h (a + 2))) OR push_bit 24 (ucast (h (a + 3)))"

text \<open>\<^verbatim>\<open>fprintf(stderr, "%s: unimplemented", __func__)\<close>\<close>

definition fprintf_unimplemented :: "string \<Rightarrow> world \<Rightarrow> world" where
  "fprintf_unimplemented func w = w\<lparr>err := err w @ func @ '': unimplemented''\<rparr>"

section \<open>isLoaded0 and force0\<close>

definition isLoaded0 :: "world \<Rightarrow> jlong \<Rightarrow> jlong \<Rightarrow> jboolean \<times> world" where
  "isLoaded0 w address len =
     (of_bool False, fprintf_unimplemented ''Java_java_nio_MappedByteBuffer_isLoaded0'' w)"

definition force0 :: "world \<Rightarrow> jlong \<Rightarrow> jlong \<Rightarrow> world" where
  "force0 w address len = fprintf_unimplemented ''Java_java_nio_MappedByteBuffer_force0'' w"

section \<open>load0\<close>

text \<open>The local variables of \<^verbatim>\<open>load0\<close>.\<close>

record frame =
  ptr :: addr
  pageIncrement :: jint
  numPages :: jlong
  i :: jint
  j :: jint

text \<open>
  How a call of \<^verbatim>\<open>load0\<close> can end without returning: the division traps, or the
  counter overflows.
\<close>

datatype trap = SIGFPE | SignedOverflow

text \<open>
  The body of the loop: \<^verbatim>\<open>j += *((volatile int *)ptr); ptr += pageIncrement;\<close>.
  Adding an \<^verbatim>\<open>int\<close> to an \<^verbatim>\<open>int *\<close> moves the address by that many times
  \<^verbatim>\<open>sizeof(int)\<close>.
\<close>

definition touch :: "frame \<times> world \<Rightarrow> frame \<times> world" where
  "touch fw =
     (case fw of (f, w) \<Rightarrow>
        (f\<lparr>j := j f + load_int (heap w) (ptr f),
           ptr := ptr f + scast (pageIncrement f) * sizeof_int\<rparr>,
         w\<lparr>reads := reads w @ [(ptr f, 4)]\<rparr>))"

text \<open>
  \<^verbatim>\<open>for (i=0; i<numPages; i++)\<close>: the comparison is done on \<^verbatim>\<open>jlong\<close>, the counter
  widened with its sign. After the body the counter is incremented; at \<^verbatim>\<open>INT_MAX\<close>
  the increment overflows and the run ends there, with the state it has reached.
\<close>

function touch_every_page :: "frame \<times> world \<Rightarrow> trap \<times> world + frame \<times> world" where
  "touch_every_page fw =
     (if scast (i (fst fw)) <s numPages (fst fw)
      then (let fw' = touch fw in
            if sint (i (fst fw')) = INT_MAX
            then Inl (SignedOverflow, snd fw')
            else touch_every_page ((fst fw')\<lparr>i := i (fst fw') + 1\<rparr>, snd fw'))
      else Inr fw)"
  by pat_completeness auto

termination touch_every_page
proof (relation "measure (\<lambda>fw. nat (INT_MAX - sint (i (fst fw))))", goal_cases)
  case 1
  show ?case by simp
next
  case (2 fw fw')
  have same: "i (fst fw') = i (fst fw)"
    using 2 by (simp add: touch_def split: prod.splits)
  have lo: "- (2 ^ 31) \<le> sint (i (fst fw))" and hi: "sint (i (fst fw)) < 2 ^ 31"
    using sint_ge [of "i (fst fw)"] sint_lt [of "i (fst fw)"] by simp_all
  from 2 same hi have below: "sint (i (fst fw)) < INT_MAX"
    by (simp add: INT_MAX_def)
  have "sint (i (fst fw) + 1) = signed_take_bit 31 (sint (i (fst fw)) + 1)"
    by (simp add: sint_word_add)
  also have "\<dots> = sint (i (fst fw)) + 1"
    using below lo by (simp add: signed_take_bit_int_eq_self INT_MAX_def)
  finally show ?case
    using below by (simp add: same)
qed

declare touch_every_page.simps [simp del]

text \<open>
  The declarations at the head of \<^verbatim>\<open>load0\<close>. \<^verbatim>\<open>pageSize / sizeof(int)\<close> is
  computed in \<^verbatim>\<open>size_t\<close>, so unsigned, and cut to an \<^verbatim>\<open>int\<close>; in
  \<^verbatim>\<open>(len + pageSize - 1) / pageSize\<close> the page size is widened to \<^verbatim>\<open>jlong\<close>.
\<close>

definition locals :: "jlong \<Rightarrow> jlong \<Rightarrow> jint \<Rightarrow> frame" where
  "locals address len pageSize =
     \<lparr>ptr = jlong_to_ptr address,
      pageIncrement = ucast ((scast pageSize :: 64 word) div sizeof_int),
      numPages = jlong_div (len + scast pageSize - 1) (scast pageSize),
      i = 0,
      j = 0\<rparr>"

text \<open>
  The division by \<^verbatim>\<open>pageSize\<close> traps when the divisor is zero or the quotient does
  not fit (the least \<^verbatim>\<open>jlong\<close> divided by \<open>-1\<close>). Otherwise the loop runs on the
  locals and \<^verbatim>\<open>j\<close> is returned.
\<close>

definition load0 :: "world \<Rightarrow> jlong \<Rightarrow> jlong \<Rightarrow> jint \<Rightarrow> trap \<times> world + jint \<times> world" where
  "load0 w address len pageSize =
     (if pageSize = 0 \<or> (pageSize = - 1 \<and> sint (len + scast pageSize - 1) = - (2 ^ 63))
      then Inl (SIGFPE, w)
      else (case touch_every_page (locals address len pageSize, w) of
              Inl e \<Rightarrow> Inl e
            | Inr (f, w') \<Rightarrow> Inr (j f, w')))"

text \<open>A state for running the methods: all memory zero, nothing printed, nothing read.\<close>

definition world0 :: world where
  "world0 = \<lparr>heap = (\<lambda>_. 0), storage = (\<lambda>_. 0), err = [], reads = []\<rparr>"

text \<open>
  A second state, with the four bytes at 65536 all ones and the byte at 69632 two.
\<close>

definition world1 :: world where
  "world1 = \<lparr>heap = (\<lambda>a. if a \<in> {65536, 65537, 65538, 65539} then 255 else if a = 69632 then 2 else 0),
             storage = (\<lambda>_. 0), err = [], reads = []\<rparr>"


section \<open>Arithmetic of the machine types\<close>

lemma sint_scast_jint: "sint (scast (x :: jint) :: jlong) = sint x"
  by (simp add: sint_up_scast is_up)

lemma ceil_div_int:
  fixes l p :: int
  assumes "0 < p"
  shows "(l + p - 1) div p = (if l mod p = 0 then l div p else l div p + 1)"
proof -
  define q r where "q = l div p" and "r = l mod p"
  have l: "l = p * q + r" and r: "0 \<le> r" "r < p"
    using assms by (simp_all add: q_def r_def)
  show ?thesis
  proof (cases "r = 0")
    case True
    have "(l + p - 1) div p = q"
    proof (rule int_div_pos_eq)
      show "l + p - 1 = p * q + (p - 1)" using l True by simp
    qed (use assms in simp_all)
    with True show ?thesis by (simp add: q_def r_def)
  next
    case False
    have "(l + p - 1) div p = q + 1"
    proof (rule int_div_pos_eq)
      show "l + p - 1 = p * (q + 1) + (r - 1)" using l by (simp add: algebra_simps)
    qed (use r False in simp_all)
    with False show ?thesis by (simp add: q_def r_def)
  qed
qed

lemma ceil_div_ceiling:
  fixes l p :: int
  assumes "0 < p"
  shows "(l + p - 1) div p = \<lceil>real_of_int l / real_of_int p\<rceil>"
  using assms
  by (simp add: ceil_div_int ceiling_divide_eq_div zdiv_zminus1_eq_if)

lemma div_le_dividend:
  fixes x b :: int
  assumes "0 \<le> x" "0 < b"
  shows "x div b \<le> x" "0 \<le> x div b"
proof -
  have "x div b \<le> x div 1"
    by (rule zdiv_mono2) (use assms in simp_all)
  then show "x div b \<le> x" by simp
  show "0 \<le> x div b"
    using assms by (simp add: div_int_pos_iff)
qed

lemma sint_page_sum:
  fixes len :: jlong and pageSize :: jint
  assumes "0 < sint pageSize" and "sint len + sint pageSize - 1 < 2 ^ 63"
  shows "sint (len + scast pageSize - 1) = sint len + sint pageSize - 1"
proof -
  have "len + scast pageSize - 1 = word_of_int (sint len + sint (scast pageSize :: jlong) - 1)"
    by simp
  then have eq: "len + scast pageSize - 1 = word_of_int (sint len + sint pageSize - 1)"
    by (simp only: sint_scast_jint)
  have st: "sint (word_of_int x :: jlong) = signed_take_bit 63 x" for x
    by (simp add: sint_sbintrunc')
  have "sint (len + scast pageSize - 1) = signed_take_bit 63 (sint len + sint pageSize - 1)"
    by (simp only: eq st)
  moreover have "- (2 ^ 63) \<le> sint len"
    using sint_ge [of len] by simp
  ultimately show ?thesis
    using assms by (simp add: signed_take_bit_int_eq_self)
qed

lemma sint_jlong_div:
  fixes a b :: jlong
  assumes "0 < sint b"
  shows "sint (jlong_div a b) = sint a sdiv sint b"
proof -
  have lo: "- (2 ^ 63) \<le> sint a" and hi: "sint a < 2 ^ 63"
    using sint_ge [of a] sint_lt [of a] by simp_all
  have q: "- (2 ^ 63) \<le> sint a sdiv sint b \<and> sint a sdiv sint b < 2 ^ 63"
  proof (cases "0 \<le> sint a")
    case True
    then have "sint a sdiv sint b = sint a div sint b"
      using assms by (simp add: signed_divide_int_def sgn_if)
    moreover have "sint a div sint b \<le> sint a" "0 \<le> sint a div sint b"
      using True assms by (simp_all add: div_le_dividend)
    ultimately show ?thesis using hi by simp
  next
    case False
    then have "sint a sdiv sint b = - ((- sint a) div sint b)"
      using assms by (simp add: signed_divide_int_def sgn_if)
    moreover have "(- sint a) div sint b \<le> - sint a" "0 \<le> (- sint a) div sint b"
      using False assms by (simp_all add: div_le_dividend)
    ultimately show ?thesis using lo by simp
  qed
  have "sint (jlong_div a b) = signed_take_bit 63 (sint a sdiv sint b)"
    by (simp add: jlong_div_def sint_sbintrunc')
  with q show ?thesis
    by (simp add: signed_take_bit_int_eq_self)
qed

lemma sdiv_nonneg:
  fixes a b :: int
  assumes "0 \<le> a" "0 < b"
  shows "a sdiv b = a div b"
  using assms by (simp add: signed_divide_int_def sgn_if)

lemma sdiv_below_divisor:
  fixes a b :: int
  assumes "a < b" "0 < b"
  shows "a sdiv b \<le> 0"
proof (cases "0 \<le> a")
  case True
  with assms show ?thesis by (simp add: sdiv_nonneg)
next
  case False
  then have "a sdiv b = - ((- a) div b)"
    using assms by (simp add: signed_divide_int_def sgn_if)
  moreover have "0 \<le> (- a) div b"
    using False assms by (simp add: div_int_pos_iff)
  ultimately show ?thesis by simp
qed

section \<open>The loop\<close>

text \<open>
  While the page count fits an \<^verbatim>\<open>int\<close> the loop ends after as many rounds as the
  count is above the counter; beyond that the counter overflows before it reaches the
  count.
\<close>

lemma loop_guard_iff: "scast (x :: jint) <s (n :: jlong) \<longleftrightarrow> sint x < sint n"
  by (simp add: word_sless_alt sint_scast_jint)

lemma sint_jint_succ:
  assumes "sint (x :: jint) < INT_MAX"
  shows "sint (x + 1) = sint x + 1"
proof -
  have lo: "- (2 ^ 31) \<le> sint x"
    using sint_ge [of x] by simp
  have "sint (x + 1) = signed_take_bit 31 (sint x + 1)"
    by (simp add: sint_word_add)
  also have "\<dots> = sint x + 1"
    using assms lo by (simp add: signed_take_bit_int_eq_self INT_MAX_def)
  finally show ?thesis .
qed

lemma sint_jint_le_max: "sint (x :: jint) \<le> INT_MAX"
  using sint_lt [of x] by (simp add: INT_MAX_def)

lemma touch_every_page_done:
  assumes "sint (numPages f) \<le> sint (i f)"
  shows "touch_every_page (f, w) = Inr (f, w)"
  using assms by (subst touch_every_page.simps) (simp add: loop_guard_iff)

lemma touch_every_page_round:
  assumes "sint (i f) < sint (numPages f)" and "sint (i f) < INT_MAX"
  shows "touch_every_page (f, w) =
     touch_every_page
       (f\<lparr>j := j f + load_int (heap w) (ptr f),
          ptr := ptr f + scast (pageIncrement f) * sizeof_int,
          i := i f + 1\<rparr>,
        w\<lparr>reads := reads w @ [(ptr f, 4)]\<rparr>)"
  using assms by (subst touch_every_page.simps) (simp add: loop_guard_iff touch_def)

lemma touch_every_page_last:
  assumes "sint (i f) < sint (numPages f)" and "sint (i f) = INT_MAX"
  shows "touch_every_page (f, w) = Inl (SignedOverflow, w\<lparr>reads := reads w @ [(ptr f, 4)]\<rparr>)"
  using assms by (subst touch_every_page.simps) (simp add: loop_guard_iff touch_def)

lemma upt_shift_sum:
  fixes g :: "nat \<Rightarrow> jint"
  shows "sum_list (map g [0..<Suc n]) = g 0 + sum_list (map (\<lambda>k. g (Suc k)) [0..<n])"
  by (simp only: map_upt_Suc sum_list.Cons)

lemma touch_every_page_returns:
  assumes "sint (numPages f) \<le> INT_MAX"
    and "n = nat (sint (numPages f) - sint (i f))"
  shows "touch_every_page (f, w) =
     Inr (f\<lparr>j := j f + sum_list (map (\<lambda>k. load_int (heap w)
                  (ptr f + of_nat k * (scast (pageIncrement f) * sizeof_int))) [0..<n]),
            ptr := ptr f + of_nat n * (scast (pageIncrement f) * sizeof_int),
            i := i f + of_nat n\<rparr>,
          w\<lparr>reads := reads w @
            map (\<lambda>k. (ptr f + of_nat k * (scast (pageIncrement f) * sizeof_int), 4)) [0..<n]\<rparr>)"
  using assms
proof (induction n arbitrary: f w)
  case 0
  then have "touch_every_page (f, w) = Inr (f, w)"
    by (intro touch_every_page_done) simp
  then show ?case
    by simp
next
  case (Suc n)
  let ?s = "scast (pageIncrement f) * sizeof_int :: 64 word"
  let ?f = "f\<lparr>j := j f + load_int (heap w) (ptr f), ptr := ptr f + ?s, i := i f + 1\<rparr>"
  let ?w = "w\<lparr>reads := reads w @ [(ptr f, 4)]\<rparr>"
  from Suc.prems have less: "sint (i f) < sint (numPages f)"
    by linarith
  with Suc.prems have below: "sint (i f) < INT_MAX"
    by linarith
  have round: "touch_every_page (f, w) = touch_every_page (?f, ?w)"
    using less below by (rule touch_every_page_round)
  have "n = nat (sint (numPages ?f) - sint (i ?f))"
    using Suc.prems below by (simp add: sint_jint_succ)
  moreover have "sint (numPages ?f) \<le> INT_MAX"
    using Suc.prems by simp
  ultimately have rest: "touch_every_page (?f, ?w) =
     Inr (?f\<lparr>j := j ?f + sum_list (map (\<lambda>k. load_int (heap ?w)
                  (ptr ?f + of_nat k * (scast (pageIncrement ?f) * sizeof_int))) [0..<n]),
            ptr := ptr ?f + of_nat n * (scast (pageIncrement ?f) * sizeof_int),
            i := i ?f + of_nat n\<rparr>,
          ?w\<lparr>reads := reads ?w @
            map (\<lambda>k. (ptr ?f + of_nat k * (scast (pageIncrement ?f) * sizeof_int), 4)) [0..<n]\<rparr>)"
    by (rule Suc.IH [rotated])
  have sum: "sum_list (map (\<lambda>k. load_int (heap w) (ptr f + of_nat k * ?s)) [0..<Suc n])
      = load_int (heap w) (ptr f)
        + sum_list (map (\<lambda>k. load_int (heap w) (ptr f + ?s + of_nat k * ?s)) [0..<n])"
    by (simp add: upt_shift_sum algebra_simps del: upt_Suc)
  have log: "map (\<lambda>k. (ptr f + of_nat k * ?s, 4 :: nat)) [0..<Suc n]
      = (ptr f, 4) # map (\<lambda>k. (ptr f + ?s + of_nat k * ?s, 4)) [0..<n]"
    by (simp add: map_upt_Suc algebra_simps del: upt_Suc)
  show ?case
    unfolding round rest sum log by (simp add: algebra_simps)
qed

lemma touch_every_page_overflows:
  assumes "INT_MAX < sint (numPages f)"
    and "n = nat (INT_MAX - sint (i f))"
  shows "touch_every_page (f, w) =
     Inl (SignedOverflow,
          w\<lparr>reads := reads w @
            map (\<lambda>k. (ptr f + of_nat k * (scast (pageIncrement f) * sizeof_int), 4)) [0..<Suc n]\<rparr>)"
  using assms
proof (induction n arbitrary: f w)
  case 0
  have "sint (i f) \<le> INT_MAX"
    by (rule sint_jint_le_max)
  with 0 have "sint (i f) = INT_MAX"
    by simp
  moreover from this 0 have "sint (i f) < sint (numPages f)"
    by simp
  ultimately have "touch_every_page (f, w) = Inl (SignedOverflow, w\<lparr>reads := reads w @ [(ptr f, 4)]\<rparr>)"
    by (intro touch_every_page_last)
  then show ?case
    by simp
next
  case (Suc n)
  let ?s = "scast (pageIncrement f) * sizeof_int :: 64 word"
  let ?f = "f\<lparr>j := j f + load_int (heap w) (ptr f), ptr := ptr f + ?s, i := i f + 1\<rparr>"
  let ?w = "w\<lparr>reads := reads w @ [(ptr f, 4)]\<rparr>"
  from Suc.prems have below: "sint (i f) < INT_MAX"
    by linarith
  with Suc.prems have less: "sint (i f) < sint (numPages f)"
    by linarith
  have round: "touch_every_page (f, w) = touch_every_page (?f, ?w)"
    using less below by (rule touch_every_page_round)
  have "n = nat (INT_MAX - sint (i ?f))"
    using Suc.prems below by (simp add: sint_jint_succ)
  moreover have "INT_MAX < sint (numPages ?f)"
    using Suc.prems by simp
  ultimately have rest: "touch_every_page (?f, ?w) =
     Inl (SignedOverflow,
          ?w\<lparr>reads := reads ?w @
            map (\<lambda>k. (ptr ?f + of_nat k * (scast (pageIncrement ?f) * sizeof_int), 4)) [0..<Suc n]\<rparr>)"
    by (rule Suc.IH [rotated])
  have log: "map (\<lambda>k. (ptr f + of_nat k * ?s, 4 :: nat)) [0..<Suc (Suc n)]
      = (ptr f, 4) # map (\<lambda>k. (ptr f + ?s + of_nat k * ?s, 4)) [0..<Suc n]"
    by (simp add: map_upt_Suc [of _ "Suc n"] algebra_simps del: upt_Suc)
  show ?case
    unfolding round rest log by (simp add: algebra_simps del: upt_Suc)
qed

section \<open>What load0 computes\<close>

lemma load0_run:
  fixes w :: world and address len :: jlong and pageSize :: jint
  defines "f \<equiv> locals address len pageSize"
  defines "n \<equiv> nat (sint (numPages f))"
  defines "stride \<equiv> scast (pageIncrement f) * sizeof_int"
  assumes pos: "0 < sint pageSize" and small: "sint (numPages f) \<le> INT_MAX"
  shows "load0 w address len pageSize =
     Inr (sum_list (map (\<lambda>k. load_int (heap w) (address + of_nat k * stride)) [0..<n]),
                w\<lparr>reads := reads w @ map (\<lambda>k. (address + of_nat k * stride, 4)) [0..<n]\<rparr>)"
proof -
  from pos have no_trap: "pageSize \<noteq> 0" "pageSize \<noteq> - 1"
    by auto
  have start: "ptr f = address" "j f = 0" "i f = 0"
    by (simp_all add: f_def locals_def jlong_to_ptr_def)
  have "n = nat (sint (numPages f) - sint (i f))"
    by (simp add: n_def start)
  from touch_every_page_returns [OF small this, of w] no_trap show ?thesis
    by (simp add: load0_def f_def [symmetric] stride_def start)
qed

text \<open>
  Beyond \<^verbatim>\<open>INT_MAX\<close> pages the counter overflows, after \<^verbatim>\<open>INT_MAX\<close> + 1 reads.
\<close>

lemma load0_overflows:
  assumes pos: "0 < sint pageSize"
    and big: "INT_MAX < sint (numPages (locals address len pageSize))"
  shows "\<exists>rs. load0 w address len pageSize = Inl (SignedOverflow, w\<lparr>reads := reads w @ rs\<rparr>)
           \<and> int (length rs) = INT_MAX + 1"
proof -
  define f where "f = locals address len pageSize"
  define m where "m = nat (INT_MAX - sint (i f))"
  define rs where
    "rs = map (\<lambda>k. (ptr f + of_nat k * (scast (pageIncrement f) * sizeof_int), 4 :: nat)) [0..<Suc m]"
  from pos have no_trap: "pageSize \<noteq> 0" "pageSize \<noteq> - 1"
    by auto
  have "sint (i f) = 0"
    by (simp add: f_def locals_def)
  then have "int m = INT_MAX"
    by (simp add: m_def INT_MAX_def)
  then have len: "int (length rs) = INT_MAX + 1"
    by (simp add: rs_def del: upt_Suc)
  have "touch_every_page (f, w) = Inl (SignedOverflow, w\<lparr>reads := reads w @ rs\<rparr>)"
    unfolding rs_def by (rule touch_every_page_overflows) (use big in \<open>simp_all add: f_def m_def\<close>)
  with no_trap have "load0 w address len pageSize = Inl (SignedOverflow, w\<lparr>reads := reads w @ rs\<rparr>)"
    by (simp add: load0_def f_def)
  with len show ?thesis
    by blast
qed

text \<open>Every call that returns has run the loop to its end.\<close>

lemma load0_returned:
  fixes w :: world and address len :: jlong and pageSize :: jint
  defines "f \<equiv> locals address len pageSize"
  defines "n \<equiv> nat (sint (numPages f))"
  defines "stride \<equiv> scast (pageIncrement f) * sizeof_int"
  assumes ret: "load0 w address len pageSize = Inr (r, w')"
  shows "r = sum_list (map (\<lambda>k. load_int (heap w) (address + of_nat k * stride)) [0..<n])"
    and "w' = w\<lparr>reads := reads w @ map (\<lambda>k. (address + of_nat k * stride, 4)) [0..<n]\<rparr>"
proof -
  from ret obtain f' where loop: "touch_every_page (f, w) = Inr (f', w')" and r: "r = j f'"
    by (auto simp: load0_def f_def split: if_splits sum.splits)
  have small: "sint (numPages f) \<le> INT_MAX"
  proof (rule ccontr)
    assume "\<not> sint (numPages f) \<le> INT_MAX"
    then have "INT_MAX < sint (numPages f)"
      by simp
    from touch_every_page_overflows [OF this refl, of w] loop show False
      by simp
  qed
  have start: "ptr f = address" "j f = 0" "i f = 0"
    by (simp_all add: f_def locals_def jlong_to_ptr_def)
  have "n = nat (sint (numPages f) - sint (i f))"
    by (simp add: n_def start)
  from touch_every_page_returns [OF small this, of w] loop
  have eq: "(f', w') =
     (f\<lparr>j := j f + sum_list (map (\<lambda>k. load_int (heap w) (ptr f + of_nat k * stride)) [0..<n]),
        ptr := ptr f + of_nat n * stride,
        i := i f + of_nat n\<rparr>,
      w\<lparr>reads := reads w @ map (\<lambda>k. (ptr f + of_nat k * stride, 4)) [0..<n]\<rparr>)"
    by (simp add: stride_def)
  from eq show "r = sum_list (map (\<lambda>k. load_int (heap w) (address + of_nat k * stride)) [0..<n])"
    by (simp add: r start)
  from eq show "w' = w\<lparr>reads := reads w @ map (\<lambda>k. (address + of_nat k * stride, 4)) [0..<n]\<rparr>"
    by (simp add: start)
qed

subsection \<open>The page count\<close>

lemma numPages_nonneg_len:
  fixes len :: jlong and pageSize :: jint
  assumes "0 \<le> sint len" and "0 < sint pageSize"
    and "sint len + sint pageSize - 1 < 2 ^ 63"
  shows "sint (numPages (locals address len pageSize))
       = (sint len + sint pageSize - 1) div sint pageSize"
proof -
  have "sint (numPages (locals address len pageSize))
      = sint (len + scast pageSize - 1) sdiv sint (scast pageSize :: jlong)"
    using assms(2) by (simp add: locals_def sint_jlong_div sint_scast_jint)
  also have "\<dots> = (sint len + sint pageSize - 1) sdiv sint pageSize"
    using assms by (simp add: sint_page_sum sint_scast_jint)
  also have "\<dots> = (sint len + sint pageSize - 1) div sint pageSize"
    using assms by (simp add: sdiv_nonneg)
  finally show ?thesis .
qed

lemma numPages_negative_len:
  fixes len :: jlong and pageSize :: jint
  assumes "sint len < 0" and "0 < sint pageSize"
  shows "sint (numPages (locals address len pageSize)) \<le> 0"
proof -
  have "sint pageSize < 2 ^ 31"
    using sint_lt [of pageSize] by simp
  with assms have sum: "sint (len + scast pageSize - 1) = sint len + sint pageSize - 1"
    by (intro sint_page_sum) simp_all
  have "sint (numPages (locals address len pageSize))
      = sint (len + scast pageSize - 1) sdiv sint (scast pageSize :: jlong)"
    using assms(2) by (simp add: locals_def sint_jlong_div sint_scast_jint)
  also have "\<dots> = (sint len + sint pageSize - 1) sdiv sint pageSize"
    by (simp add: sum sint_scast_jint)
  also have "\<dots> \<le> 0"
    using assms by (intro sdiv_below_divisor) simp_all
  finally show ?thesis .
qed

subsection \<open>Lengths that need no page\<close>

lemma load0_no_pages:
  assumes "0 < sint pageSize" and "sint (numPages (locals address len pageSize)) \<le> 0"
  shows "load0 w address len pageSize = Inr (0, w)"
proof -
  from assms(2) have "sint (numPages (locals address len pageSize)) \<le> INT_MAX"
    by (simp add: INT_MAX_def)
  from load0_run [OF assms(1) this, of w] assms(2) show ?thesis
    by simp
qed

text \<open>
  C5: for a length of zero and a positive page size, \<^verbatim>\<open>load0\<close> reads nothing (the state,
  with its log of reads, is returned as it was) and returns 0.
\<close>

theorem load0_zero_length:
  assumes "0 < sint pageSize"
  shows "load0 w address 0 pageSize = Inr (0, w)"
proof (rule load0_no_pages [OF assms])
  have "sint pageSize < 2 ^ 31"
    using sint_lt [of pageSize] by simp
  with assms have "sint (numPages (locals address 0 pageSize))
      = (sint pageSize - 1) div sint pageSize"
    using numPages_nonneg_len [of 0 pageSize address] by simp
  also have "\<dots> = 0"
    using assms by simp
  finally show "sint (numPages (locals address 0 pageSize)) \<le> 0"
    by simp
qed

theorem load0_zero_length_witness:
  "0 < sint (4096 :: jint) \<and> load0 world0 65536 0 4096 = Inr (0, world0)"
  using load0_zero_length [of 4096 world0 65536] by simp

text \<open>
  C10: for a negative length and a positive page size (the sum \<^verbatim>\<open>len + pageSize - 1\<close>
  cannot overflow then), the page count computed is not positive, the body of the loop
  never runs, and \<^verbatim>\<open>load0\<close> reads nothing and returns 0.
\<close>

theorem load0_negative_length:
  assumes "sint len < 0" and "0 < sint pageSize"
  shows "sint (numPages (locals address len pageSize)) \<le> 0
       \<and> load0 w address len pageSize = Inr (0, w)"
  using assms by (simp add: numPages_negative_len load0_no_pages)

theorem load0_negative_length_witness:
  "sint (- 5 :: jlong) < 0 \<and> 0 < sint (4096 :: jint)
   \<and> sint (numPages (locals 65536 (- 5) 4096)) \<le> 0
   \<and> load0 world0 65536 (- 5) 4096 = Inr (0, world0)"
  using load0_negative_length [of "- 5" 4096 65536 world0] by simp

subsection \<open>The number of reads\<close>

lemma page_sum_fits:
  fixes l p :: int
  assumes "0 < p" and "p < 2 ^ 31" and "(l + p - 1) div p \<le> INT_MAX"
  shows "l + p - 1 < 2 ^ 63"
proof -
  define q where "q = (l + p - 1) div p"
  have "l + p - 1 = p * q + (l + p - 1) mod p"
    by (simp add: q_def)
  moreover have "(l + p - 1) mod p < p"
    using assms(1) by simp
  moreover have "p * q \<le> p * INT_MAX"
    using assms(1,3) by (intro mult_left_mono) (simp_all add: q_def)
  ultimately have "l + p - 1 < p * 2147483648"
    by (simp add: INT_MAX_def)
  with assms(2) show ?thesis
    by simp
qed

lemma numPages_ceiling:
  fixes len :: jlong and pageSize :: jint
  assumes "0 \<le> sint len" and "0 < sint pageSize"
    and "\<lceil>real_of_int (sint len) / real_of_int (sint pageSize)\<rceil> \<le> INT_MAX"
  shows "sint (numPages (locals address len pageSize))
       = \<lceil>real_of_int (sint len) / real_of_int (sint pageSize)\<rceil>"
proof -
  have "sint pageSize < 2 ^ 31"
    using sint_lt [of pageSize] by simp
  moreover have "(sint len + sint pageSize - 1) div sint pageSize \<le> INT_MAX"
    using assms(2,3) by (simp add: ceil_div_ceiling)
  ultimately have "sint len + sint pageSize - 1 < 2 ^ 63"
    using assms(2) by (intro page_sum_fits)
  with assms(1,2) show ?thesis
    by (simp add: numPages_nonneg_len ceil_div_ceiling)
qed

text \<open>
  C1, amended: for a length \<open>len \<ge> 0\<close> and a page size \<open>pageSize > 0\<close> whose page
  count \<open>\<lceil>len / pageSize\<rceil>\<close> is at most \<^verbatim>\<open>INT_MAX\<close>, \<^verbatim>\<open>load0\<close> returns after exactly
  \<open>\<lceil>len / pageSize\<rceil>\<close> reads: \<open>len div pageSize\<close> of them when the page size divides the
  length, one more otherwise.
\<close>

theorem load0_page_reads:
  assumes "0 \<le> sint len" and "0 < sint pageSize"
    and "\<lceil>real_of_int (sint len) / real_of_int (sint pageSize)\<rceil> \<le> INT_MAX"
  shows "\<exists>r rs. load0 w address len pageSize = Inr (r, w\<lparr>reads := reads w @ rs\<rparr>)
           \<and> int (length rs) = \<lceil>real_of_int (sint len) / real_of_int (sint pageSize)\<rceil>
           \<and> int (length rs) = (if sint len mod sint pageSize = 0
                                 then sint len div sint pageSize
                                 else sint len div sint pageSize + 1)"
proof -
  let ?c = "\<lceil>real_of_int (sint len) / real_of_int (sint pageSize)\<rceil>"
  have count: "sint (numPages (locals address len pageSize)) = ?c"
    using assms by (rule numPages_ceiling)
  have c: "?c = (if sint len mod sint pageSize = 0
                 then sint len div sint pageSize
                 else sint len div sint pageSize + 1)"
    unfolding ceil_div_ceiling [OF assms(2), symmetric] by (rule ceil_div_int [OF assms(2)])
  have "0 \<le> sint len div sint pageSize"
    using assms(1,2) by (simp add: div_le_dividend)
  with c have nonneg: "0 \<le> ?c"
    by (simp split: if_splits)
  define stride where "stride = scast (pageIncrement (locals address len pageSize)) * sizeof_int"
  define rs where "rs = map (\<lambda>k. (address + of_nat k * stride, 4 :: nat)) [0..<nat ?c]"
  define r where "r = sum_list (map (\<lambda>k. load_int (heap w) (address + of_nat k * stride)) [0..<nat ?c])"
  from assms(3) count have "sint (numPages (locals address len pageSize)) \<le> INT_MAX"
    by simp
  from load0_run [OF assms(2) this, of w]
  have run: "load0 w address len pageSize = Inr (r, w\<lparr>reads := reads w @ rs\<rparr>)"
    unfolding count rs_def r_def stride_def .
  have len: "int (length rs) = ?c"
    using nonneg by (simp add: rs_def)
  have len': "int (length rs) = (if sint len mod sint pageSize = 0
                                 then sint len div sint pageSize
                                 else sint len div sint pageSize + 1)"
    unfolding len by (rule c)
  from run len len' show ?thesis
    by blast
qed

text \<open>
  At a length of 9000 and a page size of 4096 the three hypotheses hold and three reads
  are done.
\<close>

theorem load0_page_reads_witness:
  "0 \<le> sint (9000 :: jlong) \<and> 0 < sint (4096 :: jint)
   \<and> \<lceil>real_of_int (sint (9000 :: jlong)) / real_of_int (sint (4096 :: jint))\<rceil> \<le> INT_MAX
   \<and> (\<exists>r rs. load0 world0 65536 9000 4096 = Inr (r, world0\<lparr>reads := reads world0 @ rs\<rparr>)
          \<and> int (length rs) = 3)"
  using load0_page_reads [of 9000 4096 world0 65536] by (simp add: INT_MAX_def)

text \<open>
  As stated for every \<open>len \<ge> 0\<close> the claim fails: at the greatest \<^verbatim>\<open>jlong\<close> and a page
  size of 2 the sum \<^verbatim>\<open>len + pageSize - 1\<close> wraps to the least \<^verbatim>\<open>jlong\<close>, the page count
  computed is negative, and \<^verbatim>\<open>load0\<close> returns without a single read, where
  \<open>\<lceil>len / pageSize\<rceil>\<close> is \<open>2 ^ 62\<close>.
\<close>

theorem load0_page_reads_counterexample:
  "0 \<le> sint (9223372036854775807 :: jlong) \<and> 0 < sint (2 :: jint)
   \<and> \<lceil>real_of_int (sint (9223372036854775807 :: jlong)) / real_of_int (sint (2 :: jint))\<rceil>
       = 4611686018427387904
   \<and> load0 world0 65536 9223372036854775807 2 = Inr (0, world0)
   \<and> reads world0 = []"
  by (simp add: load0_def locals_def jlong_div_def touch_every_page.simps Let_def INT_MAX_def signed_divide_int_def
      word_sless_alt world0_def)

subsection \<open>The addresses read\<close>

text \<open>
  For a positive page size that is a multiple of \<^verbatim>\<open>sizeof(int)\<close>, the pointer moves by
  the page size in every round.
\<close>

lemma sint_pos_unat:
  fixes x :: jint
  assumes "0 < sint x"
  shows "sint x = int (unat x)"
proof -
  have small: "sint x < 2 ^ 31"
    using sint_lt [of x] by simp
  have "uint x = uint (word_of_int (sint x) :: jint)"
    by simp
  also have "\<dots> = take_bit 32 (sint x)"
    by (simp only: uint_word_of_int_eq) simp
  also have "\<dots> = sint x"
    using assms small by (simp add: take_bit_int_eq_self)
  finally show ?thesis
    by simp
qed

lemma scast_pos_of_nat:
  fixes pageSize :: jint
  assumes "0 < sint pageSize"
  shows "(scast pageSize :: 64 word) = of_nat (unat pageSize)"
proof -
  have "(scast pageSize :: 64 word) = word_of_int (sint pageSize)"
    by (rule scast_eq)
  also have "\<dots> = word_of_int (int (unat pageSize))"
    by (simp only: sint_pos_unat [OF assms])
  also have "\<dots> = of_nat (unat pageSize)"
    by simp
  finally show ?thesis .
qed

lemma stride_is_pageSize:
  fixes pageSize :: jint
  assumes "0 < sint pageSize" and "4 dvd sint pageSize"
  shows "scast (pageIncrement (locals address len pageSize)) * sizeof_int = (scast pageSize :: 64 word)"
proof -
  from assms(2) obtain q where q: "sint pageSize = 4 * q"
    by (auto simp: dvd_def)
  have "sint pageSize < 2 ^ 31"
    using sint_lt [of pageSize] by simp
  with assms(1) q have q_pos: "0 < q" and q_small: "q < 2 ^ 29"
    by simp_all
  have wide: "(scast pageSize :: 64 word) = word_of_int (4 * q)"
    unfolding scast_eq q ..
  have "uint (word_of_int (4 * q) :: 64 word) = 4 * q"
    using q_pos q_small by (simp only: uint_word_of_int_eq) (simp add: take_bit_int_eq_self)
  then have quot: "(scast pageSize :: 64 word) div sizeof_int = word_of_int q"
    unfolding wide by (simp add: word_div_def sizeof_int_def)
  have "uint (word_of_int q :: 64 word) = q"
    using q_pos q_small by (simp only: uint_word_of_int_eq) (simp add: take_bit_int_eq_self)
  then have narrow: "(ucast (word_of_int q :: 64 word) :: jint) = word_of_int q"
    by (simp add: ucast_eq)
  have "sint (word_of_int q :: jint) = q"
    using q_pos q_small by (simp only: sint_sbintrunc') (simp add: signed_take_bit_int_eq_self)
  then have widen: "(scast (word_of_int q :: jint) :: 64 word) = word_of_int q"
    by (simp add: scast_eq)
  have "pageIncrement (locals address len pageSize) = word_of_int q"
    by (simp add: locals_def quot narrow)
  then have "scast (pageIncrement (locals address len pageSize)) * sizeof_int
      = (word_of_int q :: 64 word) * 4"
    by (simp only: widen sizeof_int_def)
  also have "\<dots> = word_of_int (4 * q)"
    by simp
  finally show ?thesis
    by (simp only: wide)
qed

text \<open>
  C2, amended: for a page size \<open>pageSize > 0\<close> that is a multiple of 4, and a page count
  \<^verbatim>\<open>numPages\<close> of at most \<^verbatim>\<open>INT_MAX\<close>, \<^verbatim>\<open>load0\<close> returns after \<^verbatim>\<open>numPages\<close> reads
  (none when \<^verbatim>\<open>numPages\<close> is not positive), and for every \<open>k\<close> below that number the
  \<open>k\<close>-th read is a 4-byte read at the address \<open>address + k * pageSize\<close>.
\<close>

theorem load0_read_addresses:
  assumes "0 < sint pageSize" and "4 dvd sint pageSize"
    and "sint (numPages (locals address len pageSize)) \<le> INT_MAX"
  shows "\<exists>r rs. load0 w address len pageSize = Inr (r, w\<lparr>reads := reads w @ rs\<rparr>)
           \<and> length rs = nat (sint (numPages (locals address len pageSize)))
           \<and> (\<forall>k < length rs. rs ! k = (address + of_nat k * scast pageSize, 4))"
proof -
  define n where "n = nat (sint (numPages (locals address len pageSize)))"
  define rs where "rs = map (\<lambda>k. (address + of_nat k * (scast pageSize :: 64 word), 4 :: nat)) [0..<n]"
  define r where "r = sum_list (map (\<lambda>k. load_int (heap w) (address + of_nat k * scast pageSize)) [0..<n])"
  from load0_run [OF assms(1,3), of w]
  have run: "load0 w address len pageSize = Inr (r, w\<lparr>reads := reads w @ rs\<rparr>)"
    unfolding stride_is_pageSize [OF assms(1,2)] r_def rs_def n_def .
  have len: "length rs = nat (sint (numPages (locals address len pageSize)))"
    by (simp add: rs_def n_def)
  have nth: "\<forall>k < length rs. rs ! k = (address + of_nat k * scast pageSize, 4)"
    by (simp add: rs_def)
  from run len nth show ?thesis
    by blast
qed

text \<open>
  At a length of 9000 and a page size of 4096 the hypotheses hold.
\<close>

theorem load0_read_addresses_witness:
  "0 < sint (4096 :: jint) \<and> 4 dvd sint (4096 :: jint)
   \<and> sint (numPages (locals 65536 9000 4096)) \<le> INT_MAX
   \<and> (\<exists>r rs. load0 world0 65536 9000 4096 = Inr (r, world0\<lparr>reads := reads world0 @ rs\<rparr>)
           \<and> length rs = nat (sint (numPages (locals 65536 9000 4096)))
           \<and> (\<forall>k < length rs. rs ! k = (65536 + of_nat k * scast (4096 :: jint), 4)))"
proof -
  have pos: "0 < sint (4096 :: jint)" and four: "4 dvd sint (4096 :: jint)"
    by simp_all
  have small: "sint (numPages (locals 65536 9000 4096)) \<le> INT_MAX"
    by (simp add: locals_def jlong_div_def signed_divide_int_def INT_MAX_def)
  from load0_read_addresses [OF pos four small, of world0] pos four small show ?thesis
    by blast
qed

text \<open>
  As stated for every \<open>pageSize > 0\<close> the claim fails: at a page size of 6 the pointer
  moves by \<open>6 div 4 = 1\<close> \<^verbatim>\<open>int\<close>, that is 4 bytes, and the second read is at
  \<open>address + 4\<close>, not at \<open>address + 6\<close>.
\<close>

theorem load0_read_addresses_counterexample:
  "0 < sint (6 :: jint)
   \<and> load0 world0 4096 12 6 = Inr (0, world0\<lparr>reads := [(4096, 4), (4100, 4)]\<rparr>)
   \<and> [(4096 :: addr, 4 :: nat), (4100, 4)] ! 1 \<noteq> (4096 + of_nat 1 * scast (6 :: jint), 4)"
  by (simp add: load0_def locals_def jlong_div_def touch_every_page.simps Let_def INT_MAX_def signed_divide_int_def
      word_sless_alt touch_def world0_def sizeof_int_def jlong_to_ptr_def load_int_def)

subsection \<open>One read in every page\<close>

text \<open>
  C3, amended: the pages of the region are counted from its base, page \<open>k\<close> holding
  the offsets from \<open>k * pageSize\<close> up to \<open>(k + 1) * pageSize\<close>. For a length
  \<open>len \<ge> 0\<close> and a page size \<open>pageSize > 0\<close> that is a multiple of 4 and divides the
  length, with at most \<^verbatim>\<open>INT_MAX\<close> pages, the pages in which the reads of \<^verbatim>\<open>load0\<close>
  fall are, in the order of the reads, \<open>0, 1, \<dots>, len div pageSize - 1\<close>: no two reads
  fall in the same page and no page of the region is left out.
\<close>

theorem load0_one_read_per_page:
  assumes "0 \<le> sint len" and "0 < sint pageSize" and "4 dvd sint pageSize"
    and "sint pageSize dvd sint len" and "sint len div sint pageSize \<le> INT_MAX"
  shows "\<exists>r rs. load0 w address len pageSize = Inr (r, w\<lparr>reads := reads w @ rs\<rparr>)
           \<and> map (\<lambda>x. unat (fst x - address) div unat pageSize) rs
               = [0..<nat (sint len div sint pageSize)]
           \<and> distinct (map (\<lambda>x. unat (fst x - address) div unat pageSize) rs)
           \<and> set (map (\<lambda>x. unat (fst x - address) div unat pageSize) rs)
               = {k. k < nat (sint len div sint pageSize)}"
proof -
  define m where "m = unat pageSize"
  define n where "n = nat (sint len div sint pageSize)"
  define rs where "rs = map (\<lambda>k. (address + of_nat k * (scast pageSize :: 64 word), 4 :: nat)) [0..<n]"
  define r where "r = sum_list (map (\<lambda>k. load_int (heap w) (address + of_nat k * scast pageSize)) [0..<n])"
  have m: "sint pageSize = int m"
    unfolding m_def by (rule sint_pos_unat [OF assms(2)])
  with assms(2) have m_pos: "0 < m"
    by simp
  have ceil: "\<lceil>real_of_int (sint len) / real_of_int (sint pageSize)\<rceil> = sint len div sint pageSize"
    unfolding ceil_div_ceiling [OF assms(2), symmetric] ceil_div_int [OF assms(2)]
    using assms(4) by simp
  have count: "sint (numPages (locals address len pageSize)) = sint len div sint pageSize"
    unfolding ceil [symmetric]
    by (rule numPages_ceiling [OF assms(1,2)]) (simp only: ceil assms(5))
  with assms(5) have small: "sint (numPages (locals address len pageSize)) \<le> INT_MAX"
    by simp
  from load0_run [OF assms(2) small, of w]
  have run: "load0 w address len pageSize = Inr (r, w\<lparr>reads := reads w @ rs\<rparr>)"
    unfolding stride_is_pageSize [OF assms(2,3)] count r_def rs_def n_def .
  have len_eq: "sint len = int n * int m"
  proof -
    have "0 \<le> sint len div sint pageSize"
      using assms(1,2) by (simp add: div_le_dividend)
    then have "int n = sint len div sint pageSize"
      by (simp add: n_def)
    with assms(4) show ?thesis
      by (simp add: m [symmetric])
  qed
  have "sint len < 2 ^ 63"
    using sint_lt [of len] by simp
  with len_eq have nm: "n * m < 2 ^ 63"
    by (metis of_nat_less_numeral_power_cancel_iff of_nat_mult)
  have page: "unat (of_nat k * (scast pageSize :: 64 word)) div unat pageSize = k"
    if "k < n" for k
  proof -
    have "k * m \<le> n * m"
      by (rule mult_le_mono1) (use that in simp)
    then have "k * m < 2 ^ 63"
      using nm by (rule le_less_trans)
    then have km: "k * m < 2 ^ 64"
      by simp
    have off: "of_nat k * (scast pageSize :: 64 word) = of_nat (k * m)"
      by (simp add: scast_pos_of_nat [OF assms(2)] m_def)
    have "unat (of_nat (k * m) :: 64 word) = k * m"
      using km by (simp only: unat_of_nat) simp
    then have "unat (of_nat k * (scast pageSize :: 64 word)) = k * m"
      by (simp only: off)
    with m_pos show ?thesis
      by (simp add: m_def)
  qed
  have pages: "map (\<lambda>x. unat (fst x - address) div unat pageSize) rs = [0..<n]"
    by (rule nth_equalityI) (simp_all add: rs_def page)
  have "distinct (map (\<lambda>x. unat (fst x - address) div unat pageSize) rs)"
    unfolding pages by simp
  moreover have "set (map (\<lambda>x. unat (fst x - address) div unat pageSize) rs) = {k. k < n}"
    unfolding pages by auto
  ultimately show ?thesis
    using run pages unfolding n_def by blast
qed

text \<open>
  At a length of 8192 and a page size of 4096 the hypotheses hold.
\<close>

theorem load0_one_read_per_page_witness:
  "0 \<le> sint (8192 :: jlong) \<and> 0 < sint (4096 :: jint) \<and> 4 dvd sint (4096 :: jint)
   \<and> sint (4096 :: jint) dvd sint (8192 :: jlong)
   \<and> sint (8192 :: jlong) div sint (4096 :: jint) \<le> INT_MAX
   \<and> (\<exists>r rs. load0 world0 65536 8192 4096 = Inr (r, world0\<lparr>reads := reads world0 @ rs\<rparr>)
           \<and> map (\<lambda>x. unat (fst x - 65536) div unat (4096 :: jint)) rs
               = [0..<nat (sint (8192 :: jlong) div sint (4096 :: jint))]
           \<and> distinct (map (\<lambda>x. unat (fst x - 65536) div unat (4096 :: jint)) rs)
           \<and> set (map (\<lambda>x. unat (fst x - 65536) div unat (4096 :: jint)) rs)
               = {k. k < nat (sint (8192 :: jlong) div sint (4096 :: jint))})"
proof -
  have h: "0 \<le> sint (8192 :: jlong)" "0 < sint (4096 :: jint)" "4 dvd sint (4096 :: jint)"
    "sint (4096 :: jint) dvd sint (8192 :: jlong)"
    "sint (8192 :: jlong) div sint (4096 :: jint) \<le> INT_MAX"
    by (simp_all add: INT_MAX_def)
  from load0_one_read_per_page [OF h, of world0 65536] h show ?thesis
    by blast
qed

text \<open>
  As stated for any page size that divides the length the claim fails: at a length of
  21 and a page size of 7 the region has three pages; the three reads are at the offsets
  0, 4 and 8, the first two in page 0 and the third in page 1, and page 2 is never
  read.
\<close>

theorem load0_one_read_per_page_counterexample:
  "0 \<le> sint (21 :: jlong) \<and> 0 < sint (7 :: jint) \<and> sint (7 :: jint) dvd sint (21 :: jlong)
   \<and> nat (sint (21 :: jlong) div sint (7 :: jint)) = 3
   \<and> load0 world0 65536 21 7
       = Inr (0, world0\<lparr>reads := [(65536, 4), (65540, 4), (65544, 4)]\<rparr>)
   \<and> unat ((65536 :: addr) - 65536) div unat (7 :: jint) = 0
   \<and> unat ((65540 :: addr) - 65536) div unat (7 :: jint) = 0
   \<and> unat ((65544 :: addr) - 65536) div unat (7 :: jint) = 1"
  by (simp add: load0_def locals_def jlong_div_def touch_every_page.simps Let_def INT_MAX_def signed_divide_int_def
      word_sless_alt touch_def world0_def sizeof_int_def jlong_to_ptr_def load_int_def)

subsection \<open>The value returned\<close>







subsection \<open>Nothing is written\<close>

text \<open>
  C6: \<^verbatim>\<open>load0\<close> writes to no byte. Whenever a call returns, the heap after it is the
  heap before it at every address, so in particular on the region, and the backing store
  is as before too; and for a positive page size and a page count of at most
  \<^verbatim>\<open>INT_MAX\<close> the call does return.
\<close>

theorem load0_reads_only:
  "(\<forall>r w'. load0 w address len pageSize = Inr (r, w')
       \<longrightarrow> heap w' = heap w \<and> storage w' = storage w)
   \<and> (0 < sint pageSize \<and> sint (numPages (locals address len pageSize)) \<le> INT_MAX
       \<longrightarrow> (\<exists>r w'. load0 w address len pageSize = Inr (r, w')))"
proof (intro conjI allI impI)
  fix r w'
  assume ret: "load0 w address len pageSize = Inr (r, w')"
  show "heap w' = heap w"
    by (subst load0_returned(2) [OF ret]) simp
  show "storage w' = storage w"
    by (subst load0_returned(2) [OF ret]) simp
next
  assume "0 < sint pageSize \<and> sint (numPages (locals address len pageSize)) \<le> INT_MAX"
  then have "0 < sint pageSize" "sint (numPages (locals address len pageSize)) \<le> INT_MAX"
    by simp_all
  from load0_run [OF this, of w]
  show "\<exists>r w'. load0 w address len pageSize = Inr (r, w')"
    by blast
qed

text \<open>
  The call on \<open>world1\<close> returns 1, the wrapped sum of the two words, and leaves the
  heap as it was.
\<close>

theorem load0_reads_only_witness:
  "load0 world1 65536 8192 4096 = Inr (1, world1\<lparr>reads := [(65536, 4), (69632, 4)]\<rparr>)
   \<and> heap (world1\<lparr>reads := [(65536, 4), (69632, 4)]\<rparr>) = heap world1
   \<and> storage (world1\<lparr>reads := [(65536, 4), (69632, 4)]\<rparr>) = storage world1
   \<and> 0 < sint (4096 :: jint) \<and> sint (numPages (locals 65536 8192 4096)) \<le> INT_MAX"
proof -
  have run: "load0 world1 65536 8192 4096 = Inr (1, world1\<lparr>reads := [(65536, 4), (69632, 4)]\<rparr>)"
    by (simp add: load0_def locals_def jlong_div_def touch_every_page.simps Let_def INT_MAX_def signed_divide_int_def
      word_sless_alt touch_def world1_def sizeof_int_def jlong_to_ptr_def load_int_def)
  have small: "sint (numPages (locals 65536 8192 4096)) \<le> INT_MAX"
    by (simp add: locals_def jlong_div_def signed_divide_int_def INT_MAX_def)
  from load0_reads_only [of world1 65536 8192 4096] run small show ?thesis
    by simp
qed

subsection \<open>Page counts beyond the counter\<close>

text \<open>
  C9 claims that \<^verbatim>\<open>load0\<close> ends after exactly \<^verbatim>\<open>numPages\<close> page visits whenever the
  page size is positive and the region readable. The code does not: at a length of
  \<open>(2 ^ 32 + 1) * 4096\<close> and a page size of 4096 the page count is \<open>2 ^ 32 + 1\<close>, which
  the counter \<^verbatim>\<open>i\<close>, an \<^verbatim>\<open>int\<close>, cannot reach. After \<open>2 ^ 31\<close> visits the increment of
  the counter overflows, and the call does not return from a completed walk of
  \<^verbatim>\<open>numPages\<close> pages.
\<close>

theorem load0_counter_overflows:
  "0 < sint (4096 :: jint)
   \<and> sint (numPages (locals 65536 17592186048512 4096)) = 4294967297
   \<and> isl (load0 world0 65536 17592186048512 4096)
   \<and> fst (projl (load0 world0 65536 17592186048512 4096)) = SignedOverflow
   \<and> int (length (reads (snd (projl (load0 world0 65536 17592186048512 4096))))) = 2147483648"
proof -
  have pos: "0 < sint (4096 :: jint)"
    by simp
  have count: "sint (numPages (locals 65536 17592186048512 4096)) = 4294967297"
    by (simp add: locals_def jlong_div_def signed_divide_int_def)
  then have "INT_MAX < sint (numPages (locals 65536 17592186048512 4096))"
    by (simp add: INT_MAX_def)
  from load0_overflows [OF pos this, of world0]
  obtain rs where "load0 world0 65536 17592186048512 4096
        = Inl (SignedOverflow, world0\<lparr>reads := reads world0 @ rs\<rparr>)"
    and "int (length rs) = INT_MAX + 1"
    by blast
  with pos count show ?thesis
    by (simp add: world0_def INT_MAX_def)
qed

section \<open>The stubs\<close>

text \<open>
  C7: \<^verbatim>\<open>isLoaded0\<close> returns false, for every address and length.
\<close>

theorem isLoaded0_false: "fst (isLoaded0 w address len) = 0"
  by (simp add: isLoaded0_def)

text \<open>
  C8: \<^verbatim>\<open>force0\<close> flushes nothing and changes nothing of the state but \<^verbatim>\<open>stderr\<close>, to
  which it appends its diagnostic: the heap, the backing store and the log of reads are
  as before.
\<close>

theorem force0_only_prints:
  "force0 w address len =
     w\<lparr>err := err w @ ''Java_java_nio_MappedByteBuffer_force0: unimplemented''\<rparr>
   \<and> heap (force0 w address len) = heap w
   \<and> storage (force0 w address len) = storage w
   \<and> reads (force0 w address len) = reads w"
  by (simp add: force0_def fprintf_unimplemented_def)

end
